theory Spec2Isabelle
  imports Complex_Main "HOL-Library.Sublist"
begin

section \<open>Data model of the streak engine (src/lib/utils/streaks.ts)\<close>

text \<open>
  Dates. A JavaScript \<open>Date\<close> holds a time value: the milliseconds since
  1970-01-01T00:00:00Z, or NaN (an Invalid Date). A valid time value is an \<open>int\<close> here;
  the ECMAScript bound of 8.64e15 ms on time values is not modelled.

  A calendar day is the string \<open>YYYY-MM-DD\<close> in the source. For the years 0000 to 9999
  these strings have a fixed width, so they correspond one to one to day numbers (days
  since 1970-01-01) and their lexicographic order (\<open>localeCompare\<close>) is the order of the
  day numbers. The model takes the day number as the calendar day: \<open>includes\<close> and
  \<open>===\<close> on day strings are equality of day numbers, \<open>new Date("YYYY-MM-DD")\<close> is UTC
  midnight of that day.
\<close>

type_synonym day = int

datatype error = RangeError
  \<comment> \<open>thrown by \<open>toISOString\<close> on an Invalid Date\<close>

record JournalEntry =
  entry_id :: string
  \<comment> \<open>the source's \<open>_id\<close>\<close>
  createdAt :: "int option"
  \<comment> \<open>the time value of \<open>new Date(entry.createdAt)\<close>; \<open>None\<close> when the string does not
      parse (Invalid Date)\<close>

record StreakData =
  currentStreak :: nat
  longestStreak :: nat
  lastEntryDate :: "day option"
  streakDates :: "day list"

text \<open>
  The ambient inputs of the engine are the system clock read by \<open>new Date()\<close> and the
  time zone of the host, which \<open>getDate\<close> and \<open>setDate\<close> use. The zone is given as
  ECMAScript gives it, by two offsets in milliseconds (positive east of Greenwich):
  \<open>utcOffsetAt t\<close> is the offset of local time in force at the instant \<open>t\<close>
  (LocalTZA(t, true)), and \<open>localOffsetAt l\<close> is the offset by which the local time value
  \<open>l\<close> is turned back into an instant (LocalTZA(l, false)). Both may change from one
  instant to the next, as they do at a daylight-saving transition.
\<close>

record Clock =
  now :: int
  utcOffsetAt :: "int \<Rightarrow> int"
  localOffsetAt :: "int \<Rightarrow> int"

definition msPerDay :: int where
  "msPerDay = 1000 * 60 * 60 * 24"

subsection \<open>Day normalisation and day arithmetic\<close>

definition toISOString :: "int \<Rightarrow> day \<times> int" where
  \<comment> \<open>the two parts of \<open>YYYY-MM-DDTHH:mm:ss.sssZ\<close> for a valid time value: the UTC date
      and the UTC time of day\<close>
  "toISOString t = (t div msPerDay, t mod msPerDay)"

definition toDateString :: "int \<Rightarrow> day" where
  \<comment> \<open>\<open>new Date(date).toISOString().split("T")[0]\<close> on a valid time value\<close>
  "toDateString t = fst (toISOString t)"

definition entryDate :: "JournalEntry \<Rightarrow> error + day" where
  \<comment> \<open>the callback \<open>(entry) => toDateString(entry.createdAt)\<close>; the only place where an
      Invalid Date can reach \<open>toISOString\<close>\<close>
  "entryDate entry =
     (case createdAt entry of None \<Rightarrow> Inl RangeError | Some t \<Rightarrow> Inr (toDateString t))"

fun mapE :: "('a \<Rightarrow> error + 'b) \<Rightarrow> 'a list \<Rightarrow> error + 'b list" where
  \<comment> \<open>\<open>Array.prototype.map\<close> with a callback that may throw: the first throw ends the call\<close>
  "mapE f [] = Inr []"
| "mapE f (x # xs) =
     (case f x of
        Inl e \<Rightarrow> Inl e
      | Inr y \<Rightarrow> (case mapE f xs of Inl e \<Rightarrow> Inl e | Inr ys \<Rightarrow> Inr (y # ys)))"

fun newSet :: "'a list \<Rightarrow> 'a list" where
  \<comment> \<open>\<open>[...new Set(xs)]\<close>: the first occurrence of each value, in insertion order\<close>
  "newSet [] = []"
| "newSet (x # xs) = x # newSet (filter (\<lambda>y. y \<noteq> x) xs)"

definition getUniqueDates :: "JournalEntry list \<Rightarrow> error + day list" where
  \<comment> \<open>\<open>sort((a, b) => b.localeCompare(a))\<close>: a stable sort, newest day first\<close>
  "getUniqueDates entries =
     (case mapE entryDate entries of
        Inl e \<Rightarrow> Inl e
      | Inr ds \<Rightarrow> Inr (sort_key (\<lambda>d. - d) (newSet ds)))"

definition newDate :: "day \<Rightarrow> int" where
  \<comment> \<open>\<open>new Date(date)\<close> for a day string: midnight UTC of that day\<close>
  "newDate d = d * msPerDay"

definition getDate :: "Clock \<Rightarrow> int \<Rightarrow> int" where
  \<comment> \<open>the local calendar day of a time value, as a day number (the source's day of the
      month is this day counted from the first of the local month)\<close>
  "getDate clk t = (t + utcOffsetAt clk t) div msPerDay"

definition setDate :: "Clock \<Rightarrow> int \<Rightarrow> int \<Rightarrow> int" where
  \<comment> \<open>moves a time value to the given local day, keeping the local time of day (a day of
      the month outside the month carries into the neighbouring months); the new local
      time is turned into an instant with the offset of the zone at that local time\<close>
  "setDate clk t d =
     (let tLocal = t + utcOffsetAt clk t;
          moved = d * msPerDay + tLocal mod msPerDay
      in moved - localOffsetAt clk moved)"

definition addDays :: "Clock \<Rightarrow> day \<Rightarrow> int \<Rightarrow> day" where
  \<comment> \<open>\<open>d0\<close> and \<open>d1\<close> are the source's \<open>newDate\<close> before and after \<open>setDate\<close>\<close>
  "addDays clk date days =
     (let d0 = newDate date;
          d1 = setDate clk d0 (getDate clk d0 + days)
      in toDateString d1)"

definition daysBetween :: "day \<Rightarrow> day \<Rightarrow> int" where
  "daysBetween date1 date2 =
     \<lfloor>real_of_int (newDate date1 - newDate date2) / real_of_int (1000 * 60 * 60 * 24)\<rfloor>"

subsection \<open>Current streak\<close>

fun findIndex :: "('a \<Rightarrow> bool) \<Rightarrow> 'a list \<Rightarrow> nat option" where
  \<comment> \<open>\<open>Array.prototype.findIndex\<close>; \<open>None\<close> is the source's \<open>-1\<close>\<close>
  "findIndex P [] = None"
| "findIndex P (x # xs) = (if P x then Some 0 else map_option Suc (findIndex P xs))"

record CurrentStreak =
  streak :: nat
  dates :: "day list"

definition calculateCurrentStreak :: "Clock \<Rightarrow> day list \<Rightarrow> CurrentStreak" where
  \<comment> \<open>\<open>matched\<close> and \<open>n\<close> are the source's local \<open>streakDates\<close> and \<open>streak\<close>\<close>
  "calculateCurrentStreak clk entryDates =
     (let today = toDateString (now clk);
          yesterday = addDays clk today (- 1);
          hasEntryToday = (today \<in> set entryDates);
          startDate = (if hasEntryToday then today else yesterday);
          consecutiveDates =
            map (\<lambda>i. addDays clk startDate (- int i)) [0 ..< length entryDates];
          matched = filter (\<lambda>d. d \<in> set entryDates) consecutiveDates;
          streakEndIndex = findIndex (\<lambda>d. d \<notin> set entryDates) consecutiveDates;
          n = (case streakEndIndex of None \<Rightarrow> length matched | Some i \<Rightarrow> i)
      in \<lparr> streak = n, dates = rev (take n matched) \<rparr>)"

subsection \<open>Longest streak\<close>

record DatePair =
  date :: day
  prevDate :: day
  isConsecutive :: bool

definition datePairs :: "day list \<Rightarrow> DatePair list" where
  \<comment> \<open>\<open>entryDates.slice(1).map((date, i) => ...)\<close>; \<open>entryDates[i]\<close> is in range there\<close>
  "datePairs entryDates =
     map (\<lambda>i. \<lparr> date = tl entryDates ! i,
                prevDate = entryDates ! i,
                isConsecutive = (daysBetween (entryDates ! i) (tl entryDates ! i) = 1) \<rparr>)
         [0 ..< length (tl entryDates)]"

definition streakStep :: "nat list \<Rightarrow> DatePair \<Rightarrow> nat list" where
  \<comment> \<open>the reducer; \<open>acc\<close> starts as \<open>[1]\<close> and never becomes empty, so
      \<open>acc[acc.length - 1]\<close> is in range; \<open>v || 1\<close> replaces a zero by one\<close>
  "streakStep acc p =
     (if isConsecutive p
      then acc[length acc - 1 :=
                 (let v = acc ! (length acc - 1) in if v = 0 then 1 else v) + 1]
      else acc @ [1])"

definition findLongestStreak :: "day list \<Rightarrow> nat" where
  "findLongestStreak entryDates =
     (if length entryDates = 0 then 0
      else let streaks = foldl streakStep [1] (datePairs entryDates)
           in Max (set streaks))"

subsection \<open>The exported operations\<close>

definition calculateStreaks :: "Clock \<Rightarrow> JournalEntry list option \<Rightarrow> error + StreakData" where
  \<comment> \<open>\<open>None\<close> is a null or undefined argument, which \<open>!entries?.length\<close> accepts\<close>
  "calculateStreaks clk entries =
     (case entries of
        None \<Rightarrow> Inr \<lparr> currentStreak = 0, longestStreak = 0,
                      lastEntryDate = None, streakDates = [] \<rparr>
      | Some es \<Rightarrow>
          if length es = 0
          then Inr \<lparr> currentStreak = 0, longestStreak = 0,
                     lastEntryDate = None, streakDates = [] \<rparr>
          else (case getUniqueDates es of
                  Inl e \<Rightarrow> Inl e
                | Inr entryDates \<Rightarrow>
                    let cs = calculateCurrentStreak clk entryDates;
                        longest = findLongestStreak entryDates
                    in Inr \<lparr> currentStreak = streak cs,
                             longestStreak = longest,
                             lastEntryDate =
                               (case entryDates of [] \<Rightarrow> None | d # _ \<Rightarrow> Some d),
                             streakDates = dates cs \<rparr>))"

definition isStreakActive :: "Clock \<Rightarrow> JournalEntry list option \<Rightarrow> error + bool" where
  "isStreakActive clk entries =
     (case entries of
        None \<Rightarrow> Inr False
      | Some es \<Rightarrow>
          if length es = 0 then Inr False
          else let today = toDateString (now clk);
                   yesterday = addDays clk today (- 1)
               in (case mapE entryDate es of
                     Inl e \<Rightarrow> Inl e
                   | Inr entryDates \<Rightarrow>
                       Inr (today \<in> set entryDates \<or> yesterday \<in> set entryDates)))"

record Milestone =
  daysUntil :: int
  milestone :: int

definition milestones :: "int list" where
  "milestones = [5, 10, 25, 50, 100, 200, 365, 500, 1000]"

definition getDaysUntilNextMilestone :: "int \<Rightarrow> Milestone" where
  "getDaysUntilNextMilestone cur =
     (let nextMilestone =
            (case find (\<lambda>m. cur < m) milestones of
               Some m \<Rightarrow> m
             | None \<Rightarrow> \<lceil>real_of_int cur / 100\<rceil> * 100)
      in \<lparr> daysUntil = nextMilestone - cur, milestone = nextMilestone \<rparr>)"

subsection \<open>Notions of the specification\<close>

definition validInput :: "JournalEntry list option \<Rightarrow> bool" where
  \<comment> \<open>the precondition of sections 4.1 and 7 of the specification: every timestamp parses\<close>
  "validInput entries =
     (case entries of None \<Rightarrow> True | Some es \<Rightarrow> list_all (\<lambda>e. createdAt e \<noteq> None) es)"

definition entryDays :: "JournalEntry list option \<Rightarrow> day list" where
  \<comment> \<open>the calendar days of the entries, one for each entry with a valid timestamp\<close>
  "entryDays entries =
     (case entries of
        None \<Rightarrow> []
      | Some es \<Rightarrow> List.map_filter (\<lambda>e. map_option toDateString (createdAt e)) es)"

definition utcDay :: "int \<Rightarrow> day" where
  \<comment> \<open>the UTC calendar day of an instant: the whole days of 86400000 ms since the epoch\<close>
  "utcDay t = t div 86400000"

definition utcDays :: "JournalEntry list \<Rightarrow> day list" where
  \<comment> \<open>the UTC calendar days of the instants at which the entries were created\<close>
  "utcDays es = List.map_filter (\<lambda>e. map_option utcDay (createdAt e)) es"

definition zeroResult :: StreakData where
  \<comment> \<open>scenario D of section 8: the result for an empty entry collection\<close>
  "zeroResult =
     \<lparr> currentStreak = 0, longestStreak = 0, lastEntryDate = None, streakDates = [] \<rparr>"

definition uniqueDays :: "day list \<Rightarrow> day list" where
  \<comment> \<open>section 4.2 on days: duplicates removed, newest first\<close>
  "uniqueDays ds = sort_key (\<lambda>d. - d) (newSet ds)"

definition anchor :: "Clock \<Rightarrow> day list \<Rightarrow> day" where
  \<comment> \<open>step 2 of section 4.4: today if it has an entry, else yesterday\<close>
  "anchor clk ds =
     (let today = toDateString (now clk)
      in if today \<in> set ds then today else addDays clk today (- 1))"

definition candidates :: "Clock \<Rightarrow> day list \<Rightarrow> day list" where
  \<comment> \<open>step 3 of section 4.4: the anchor moved back by \<open>0, 1, ...\<close> days with \<open>addDays\<close>,
      \<open>len(days)\<close> candidates in all\<close>
  "candidates clk ds = map (\<lambda>i. addDays clk (anchor clk ds) (- int i)) [0 ..< length ds]"

definition walk :: "Clock \<Rightarrow> day list \<Rightarrow> day list" where
  \<comment> \<open>step 4 of section 4.4: the leading candidates that are all present\<close>
  "walk clk ds = takeWhile (\<lambda>d. d \<in> set ds) (candidates clk ds)"

definition fixedZone :: "Clock \<Rightarrow> bool" where
  \<comment> \<open>section 4.3: a host without local-time discontinuities, one offset at all times\<close>
  "fixedZone clk = (\<exists>z. \<forall>t. utcOffsetAt clk t = z \<and> localOffsetAt clk t = z)"

definition isRun :: "day list \<Rightarrow> bool" where
  \<comment> \<open>section 4.5: a run of calendar-consecutive days in a newest-first sequence; a pair
      is consecutive iff the later day minus the earlier day is exactly one day\<close>
  "isRun ys = successively (\<lambda>later earlier. later - earlier = 1) ys"

fun longestFrom :: "nat \<Rightarrow> day list \<Rightarrow> nat" where
  \<comment> \<open>section 4.5 as a scan: \<open>c\<close> is the length of the run that ends at the head\<close>
  "longestFrom c (x # y # r) =
     (if x - y = 1 then longestFrom (Suc c) (y # r) else max c (longestFrom 1 (y # r)))"
| "longestFrom c _ = c"

subsection \<open>Hosts\<close>

text \<open>
  A host whose zone changes its offset once, at the instant \<open>T\<close>, from \<open>a\<close> to \<open>b\<close>.
  A local time that occurs twice (the clock is set back) or not at all (the clock is set
  forward) is read with the offset before the change, as ECMAScript prescribes: these are
  the local times that lie before \<open>T\<close> under one of the two offsets.

  New York in the autumn of 2025: four hours behind UTC until 2025-11-02 06:00 UTC (02:00
  local daylight time), five hours behind from then on. Berlin in the autumn of 2025: two
  hours ahead of UTC until 2025-10-26 01:00 UTC (03:00 local daylight time), one hour from
  then on.
\<close>

definition hostWithChange :: "int \<Rightarrow> int \<Rightarrow> int \<Rightarrow> int \<Rightarrow> Clock" where
  "hostWithChange a T b n =
     \<lparr> now = n,
       utcOffsetAt = (\<lambda>t. if t < T then a else b),
       localOffsetAt = (\<lambda>l. if l < T + max a b then a else b) \<rparr>"

definition newYork :: "int \<Rightarrow> Clock" where
  "newYork n = hostWithChange (- 14400000) 1762063200000 (- 18000000) n"

definition berlin :: "int \<Rightarrow> Clock" where
  "berlin n = hostWithChange 7200000 1761440400000 3600000 n"

subsection \<open>The scenarios of section 8 of the specification\<close>

text \<open>
  Day 20352 is 2025-09-21. The clocks read 10:30 UTC on 2025-09-21 and on 2025-09-23, on
  a host in New York; the entries are written at 08:00 UTC, and scenario A has a second
  entry on 2025-09-21 at 21:59:59 UTC.
\<close>

definition clockSep21 :: Clock where
  "clockSep21 = newYork 1758450600000"

definition clockSep23 :: Clock where
  "clockSep23 = newYork 1758623400000"

definition scenarioA :: "JournalEntry list option" where
  "scenarioA =
     Some [\<lparr> entry_id = ''a1'', createdAt = Some 1758355200000 \<rparr>,
           \<lparr> entry_id = ''a2'', createdAt = Some 1758441600000 \<rparr>,
           \<lparr> entry_id = ''a3'', createdAt = Some 1758491999000 \<rparr>]"

definition scenarioB :: "JournalEntry list option" where
  "scenarioB =
     Some [\<lparr> entry_id = ''b1'', createdAt = Some 1758268800000 \<rparr>,
           \<lparr> entry_id = ''b2'', createdAt = Some 1758441600000 \<rparr>]"

definition scenarioC :: "JournalEntry list option" where
  "scenarioC =
     Some [\<lparr> entry_id = ''c1'', createdAt = Some 1758182400000 \<rparr>,
           \<lparr> entry_id = ''c2'', createdAt = Some 1758268800000 \<rparr>,
           \<lparr> entry_id = ''c3'', createdAt = Some 1758355200000 \<rparr>,
           \<lparr> entry_id = ''c4'', createdAt = Some 1758441600000 \<rparr>]"

subsection \<open>A host in New York on 2025-11-03, the day after the clocks were set back\<close>

text \<open>
  Day 20395 is 2025-11-03; the clock reads 15:00 UTC (10:00 local time). The entries are
  written at 15:00 UTC of their days, the one of 2025-11-03 at 14:00 UTC.
\<close>

definition clockNov03 :: Clock where
  "clockNov03 = newYork 1762182000000"

definition entriesOct31Nov01Nov03 :: "JournalEntry list option" where
  "entriesOct31Nov01Nov03 =
     Some [\<lparr> entry_id = ''g1'', createdAt = Some 1761922800000 \<rparr>,
           \<lparr> entry_id = ''g2'', createdAt = Some 1762009200000 \<rparr>,
           \<lparr> entry_id = ''g3'', createdAt = Some 1762178400000 \<rparr>]"

definition entriesNov01Nov02Nov03 :: "JournalEntry list option" where
  "entriesNov01Nov02Nov03 =
     Some [\<lparr> entry_id = ''h1'', createdAt = Some 1762009200000 \<rparr>,
           \<lparr> entry_id = ''h2'', createdAt = Some 1762095600000 \<rparr>,
           \<lparr> entry_id = ''h3'', createdAt = Some 1762178400000 \<rparr>]"



subsection \<open>An entry written late in the evening in New York\<close>

definition entryLateSep20 :: JournalEntry where
  \<comment> \<open>written at 2025-09-21 01:30 UTC, which is 21:30 on 2025-09-20 in New York\<close>
  "entryLateSep20 = \<lparr> entry_id = ''n1'', createdAt = Some 1758418200000 \<rparr>"

section \<open>Day arithmetic\<close>

lemma msPerDay_pos: "0 < msPerDay"
  by (simp add: msPerDay_def)

lemma toDateString_div: "toDateString t = t div msPerDay"
  by (simp add: toDateString_def toISOString_def)

lemma toDateString_utcDay: "toDateString t = utcDay t"
  by (simp add: toDateString_div utcDay_def msPerDay_def)

lemma addDays_fixedZone:
  assumes "fixedZone clk"
  shows "addDays clk d n = d + n"
proof -
  from assms obtain z where z: "\<And>t. utcOffsetAt clk t = z" "\<And>t. localOffsetAt clk t = z"
    unfolding fixedZone_def by blast
  have pos: "msPerDay \<noteq> 0" using msPerDay_pos by simp
  define l where "l = d * msPerDay + z"
  have "l div msPerDay * msPerDay + l mod msPerDay = l"
    by (rule div_mult_mod_eq)
  then have "(l div msPerDay + n) * msPerDay + l mod msPerDay - z = (d + n) * msPerDay"
    by (simp add: algebra_simps l_def)
  then have "toDateString (setDate clk (newDate d) (getDate clk (newDate d) + n)) = d + n"
    using pos by (simp add: setDate_def getDate_def newDate_def toDateString_div l_def z Let_def)
  then show ?thesis
    by (simp add: addDays_def Let_def)
qed


lemma addDays_berlin_skips_Oct26: "addDays (berlin 1761555600000) 20388 (- 1) = 20386"
  by code_simp

lemma daysBetween_eq: "daysBetween a b = a - b"
proof -
  have "daysBetween a b = (newDate a - newDate b) div (1000 * 60 * 60 * 24)"
    unfolding daysBetween_def by (rule floor_divide_of_int_eq)
  also have "newDate a - newDate b = (a - b) * (1000 * 60 * 60 * 24)"
    by (simp add: newDate_def msPerDay_def algebra_simps)
  also have "(a - b) * (1000 * 60 * 60 * 24) div (1000 * 60 * 60 * 24) = a - b"
    by simp
  finally show ?thesis .
qed

text \<open>
  Moving a day by zero days gives the day back on a host with one offset, on the host in
  New York for every day, and on a host with one change of offset for every day whose UTC
  midnight does not fall into the local time that the change repeats.
\<close>

lemma addDays_zero_fixedZone: "fixedZone clk \<Longrightarrow> addDays clk d 0 = d"
  by (simp add: addDays_fixedZone)


lemma addDays_zero_hostWithChange:
  assumes "\<not> (T \<le> d * msPerDay \<and> d * msPerDay < T + (a - b))"
  shows "addDays (hostWithChange a T b n) d 0 = d"
proof -
  define t where "t = d * msPerDay"
  define h where "h = hostWithChange a T b n"
  have rt: "(t + z) div msPerDay * msPerDay + (t + z) mod msPerDay - z = t" for z :: int
    using div_mult_mod_eq [of "t + z" msPerDay] by simp
  have same: "localOffsetAt h (t + utcOffsetAt h t) = utcOffsetAt h t"
  proof (cases "t < T")
    case True
    then have "t + a < T + max a b" by simp
    with True show ?thesis by (simp add: h_def hostWithChange_def)
  next
    case False
    with assms have "\<not> t < T + (a - b)" by (simp add: t_def)
    then have "\<not> t + b < T + max a b" using False by simp
    with False show ?thesis by (simp add: h_def hostWithChange_def)
  qed
  have "setDate h t (getDate h t + 0) = t"
    using rt [of "utcOffsetAt h t"] same by (simp add: setDate_def getDate_def Let_def)
  moreover have "t div msPerDay = d" by (simp add: t_def msPerDay_def)
  ultimately show ?thesis
    by (simp add: addDays_def Let_def newDate_def t_def [symmetric] h_def [symmetric]
        toDateString_div)
qed

section \<open>The current streak as a walk back from the anchor\<close>

lemma findIndex_takeWhile:
  "(case findIndex (\<lambda>x. \<not> P x) xs of None \<Rightarrow> length (filter P xs) | Some i \<Rightarrow> i)
     = length (takeWhile P xs)"
  by (induction xs) (auto split: option.splits)

lemma take_filter_takeWhile:
  "take (length (takeWhile P xs)) (filter P xs) = takeWhile P xs"
  by (induction xs) auto

lemma calculateCurrentStreak_walk:
  "calculateCurrentStreak clk ds = \<lparr> streak = length (walk clk ds), dates = rev (walk clk ds) \<rparr>"
proof -
  define cands where "cands = candidates clk ds"
  have n: "(case findIndex (\<lambda>d. d \<notin> set ds) cands of
              None \<Rightarrow> length (filter (\<lambda>d. d \<in> set ds) cands) | Some i \<Rightarrow> i)
           = length (walk clk ds)"
    using findIndex_takeWhile [of "\<lambda>d. d \<in> set ds" cands] by (simp add: walk_def cands_def)
  have t: "take (length (walk clk ds)) (filter (\<lambda>d. d \<in> set ds) cands) = walk clk ds"
    using take_filter_takeWhile [of "\<lambda>d. d \<in> set ds" cands] by (simp add: walk_def cands_def)
  have c: "map (\<lambda>i. addDays clk (if toDateString (now clk) \<in> set ds then toDateString (now clk)
                else addDays clk (toDateString (now clk)) (- 1)) (- int i)) [0 ..< length ds] = cands"
    by (simp add: cands_def candidates_def anchor_def Let_def)
  show ?thesis
    unfolding calculateCurrentStreak_def Let_def c n t ..
qed

lemma walk_subset: "set (walk clk ds) \<subseteq> set ds"
  unfolding walk_def by (auto dest: set_takeWhileD)

lemma walk_length_le: "length (walk clk ds) \<le> length ds"
proof -
  have "length (walk clk ds) \<le> length (candidates clk ds)"
    unfolding walk_def by (rule length_takeWhile_le)
  then show ?thesis by (simp add: candidates_def)
qed


lemma anchor_cong: "set ds = set ds' \<Longrightarrow> anchor clk ds = anchor clk ds'"
  by (simp add: anchor_def)

lemma anchor_mem_iff:
  "anchor clk ds \<in> set ds \<longleftrightarrow>
     toDateString (now clk) \<in> set ds \<or> addDays clk (toDateString (now clk)) (- 1) \<in> set ds"
  by (simp add: anchor_def Let_def)




text \<open>On a host with one offset at all times the candidates count down from the anchor.\<close>

lemma takeWhile_upt_map:
  "takeWhile P (map f [0 ..< n]) = map f [0 ..< length (takeWhile P (map f [0 ..< n]))]"
proof -
  let ?k = "length (takeWhile P (map f [0 ..< n]))"
  have "?k \<le> n"
    using length_takeWhile_le [of P "map f [0 ..< n]"] by simp
  moreover have "takeWhile P (map f [0 ..< n]) = take ?k (map f [0 ..< n])"
    by (rule takeWhile_eq_take)
  ultimately show ?thesis
    by (simp add: take_map min_def)
qed

lemma rev_countdown: "rev (map (\<lambda>i. s - int i) [0 ..< k]) = [s - int k + 1 .. s]"
proof (induction k)
  case 0
  show ?case by simp
next
  case (Suc k)
  have "[s - int (Suc k) + 1 .. s] = (s - int k) # [s - int k + 1 .. s]"
    by (subst upto_rec1) auto
  with Suc show ?case by simp
qed

lemma candidates_fixedZone:
  "fixedZone clk \<Longrightarrow> candidates clk ds = map (\<lambda>i. anchor clk ds - int i) [0 ..< length ds]"
  by (simp add: candidates_def addDays_fixedZone)

lemma walk_countdown:
  assumes "fixedZone clk"
  shows "walk clk ds = map (\<lambda>i. anchor clk ds - int i) [0 ..< length (walk clk ds)]"
  unfolding walk_def candidates_fixedZone [OF assms] by (rule takeWhile_upt_map)

lemma rev_walk:
  assumes "fixedZone clk"
  shows "rev (walk clk ds) = [anchor clk ds - int (length (walk clk ds)) + 1 .. anchor clk ds]"
  by (subst walk_countdown [OF assms]) (rule rev_countdown)

section \<open>The longest streak as a scan\<close>

lemma datePairs_single: "datePairs [x] = []"
  by (simp add: datePairs_def)

lemma datePairs_Cons:
  "datePairs (x # y # r) =
     \<lparr> date = y, prevDate = x, isConsecutive = (x - y = 1) \<rparr> # datePairs (y # r)"
proof -
  have "[0 ..< Suc (length r)] = 0 # map Suc [0 ..< length r]"
    by (simp add: upt_conv_Cons map_Suc_upt del: upt_Suc)
  then show ?thesis
    by (simp add: datePairs_def daysBetween_eq comp_def del: upt_Suc)
qed

lemma streakStep_consecutive:
  "isConsecutive p \<Longrightarrow> 0 < c \<Longrightarrow> streakStep (pre @ [c]) p = pre @ [Suc c]"
  by (simp add: streakStep_def Let_def)

lemma streakStep_break:
  "\<not> isConsecutive p \<Longrightarrow> streakStep acc p = acc @ [1]"
  by (simp add: streakStep_def)

lemma foldl_streakStep:
  "0 < c \<Longrightarrow>
   Max (set (foldl streakStep (pre @ [c]) (datePairs (x # r))))
     = Max (set (pre @ [longestFrom c (x # r)]))"
proof (induction r arbitrary: pre c x)
  case Nil
  show ?case by (simp add: datePairs_single)
next
  case (Cons y r)
  show ?case
  proof (cases "x - y = 1")
    case True
    have "foldl streakStep (pre @ [c]) (datePairs (x # y # r))
            = foldl streakStep (pre @ [Suc c]) (datePairs (y # r))"
      using True Cons.prems by (simp add: datePairs_Cons streakStep_consecutive)
    then show ?thesis
      using True Cons.IH [of "Suc c" pre y] by simp
  next
    case False
    have "foldl streakStep (pre @ [c]) (datePairs (x # y # r))
            = foldl streakStep ((pre @ [c]) @ [1]) (datePairs (y # r))"
      using False by (simp add: datePairs_Cons streakStep_break)
    then have "Max (set (foldl streakStep (pre @ [c]) (datePairs (x # y # r))))
            = Max (set ((pre @ [c]) @ [longestFrom 1 (y # r)]))"
      using Cons.IH [of 1 "pre @ [c]" y] by simp
    also have "\<dots> = Max (set (pre @ [max c (longestFrom 1 (y # r))]))"
      by (cases "pre = []") (simp_all add: max.assoc max.commute)
    finally show ?thesis using False by simp
  qed
qed

lemma findLongestStreak_longestFrom:
  "findLongestStreak (x # r) = longestFrom 1 (x # r)"
  using foldl_streakStep [of 1 "[]" x r] by (simp add: findLongestStreak_def)

lemma longestFrom_ge: "c \<le> longestFrom c xs"
  by (induction c xs rule: longestFrom.induct) (auto simp: le_max_iff_disj dest: Suc_leD)

lemma longestFrom_upper:
  "0 < c \<Longrightarrow> successively (\<lambda>a b. a - b = 1) ys \<Longrightarrow>
     (sublist ys (x # r) \<longrightarrow> length ys \<le> longestFrom c (x # r)) \<and>
     (prefix ys (x # r) \<longrightarrow> length ys + c \<le> Suc (longestFrom c (x # r)))"
proof (induction r arbitrary: c x ys)
  case Nil
  then show ?case by (cases ys) (auto simp: sublist_Cons_right)
next
  case (Cons y r)
  note IH = Cons.IH and pos = \<open>0 < c\<close> and run = \<open>successively (\<lambda>a b. a - b = 1) ys\<close>
  show ?case
  proof (cases "x - y = 1")
    case True
    then have F: "longestFrom c (x # y # r) = longestFrom (Suc c) (y # r)" by simp
    have sub: "sublist ys (y # r) \<Longrightarrow> length ys \<le> longestFrom (Suc c) (y # r)"
      using IH [of "Suc c" ys y] run by simp
    have pre: "length ys + c \<le> Suc (longestFrom (Suc c) (y # r))" if p: "prefix ys (x # y # r)"
    proof (cases ys)
      case Nil
      then show ?thesis using longestFrom_ge [of "Suc c" "y # r"] by simp
    next
      case (Cons a ys')
      with p have "prefix ys' (y # r)" by simp
      moreover have "successively (\<lambda>a b. a - b = 1) ys'"
        using run Cons by (auto simp: successively_Cons)
      ultimately have "length ys' + Suc c \<le> Suc (longestFrom (Suc c) (y # r))"
        using IH [of "Suc c" ys' y] by simp
      then show ?thesis using Cons by simp
    qed
    show ?thesis
      unfolding F using sub pre pos by (auto simp: sublist_Cons_right)
  next
    case False
    then have F: "longestFrom c (x # y # r) = max c (longestFrom 1 (y # r))" by simp
    have sub: "sublist ys (y # r) \<Longrightarrow> length ys \<le> longestFrom 1 (y # r)"
      using IH [of 1 ys y] run by simp
    have pre: "length ys \<le> 1" if p: "prefix ys (x # y # r)"
    proof (cases ys)
      case Nil
      then show ?thesis by simp
    next
      case (Cons a ys')
      show ?thesis
      proof (cases ys')
        case Nil
        with Cons show ?thesis by simp
      next
        case (Cons b ys'')
        with \<open>ys = a # ys'\<close> p have "a = x" "b = y" by auto
        with run \<open>ys = a # ys'\<close> Cons False show ?thesis by simp
      qed
    qed
    show ?thesis
      unfolding F using sub pre pos by (fastforce simp: sublist_Cons_right)
  qed
qed

lemma longestFrom_attained:
  "0 < c \<Longrightarrow>
     (\<exists>ys. sublist ys (x # r) \<and> successively (\<lambda>a b. a - b = 1) ys \<and> length ys = longestFrom c (x # r)) \<or>
     (\<exists>ys. prefix ys (x # r) \<and> ys \<noteq> [] \<and> successively (\<lambda>a b. a - b = 1) ys \<and>
           Suc (longestFrom c (x # r)) = c + length ys)"
proof (induction r arbitrary: c x)
  case Nil
  have "prefix [x] [x] \<and> [x] \<noteq> [] \<and> successively (\<lambda>a b. a - b = 1) [x] \<and>
        Suc (longestFrom c [x]) = c + length [x]" by simp
  then show ?case by blast
next
  case (Cons y r)
  show ?case
  proof (cases "x - y = 1")
    case True
    then have F: "longestFrom c (x # y # r) = longestFrom (Suc c) (y # r)" by simp
    from Cons.IH [of "Suc c" y] consider
      ys where "sublist ys (y # r)" "successively (\<lambda>a b. a - b = 1) ys"
               "length ys = longestFrom (Suc c) (y # r)"
    | ys where "prefix ys (y # r)" "ys \<noteq> []" "successively (\<lambda>a b. a - b = 1) ys"
               "Suc (longestFrom (Suc c) (y # r)) = Suc c + length ys"
      by auto
    then show ?thesis
    proof cases
      case 1
      then have "sublist ys (x # y # r)" by (simp add: sublist_Cons_right)
      with 1 F show ?thesis by auto
    next
      case 2
      then obtain ys' where ys: "ys = y # ys'" by (cases ys) auto
      have "prefix (x # ys) (x # y # r)" using 2 by simp
      moreover have "successively (\<lambda>a b. a - b = 1) (x # ys)" using 2 True ys by simp
      moreover have "Suc (longestFrom c (x # y # r)) = c + length (x # ys)"
        using 2 F by simp
      ultimately show ?thesis by blast
    qed
  next
    case False
    then have F: "longestFrom c (x # y # r) = max c (longestFrom 1 (y # r))" by simp
    show ?thesis
    proof (cases "longestFrom 1 (y # r) \<le> c")
      case True
      have "prefix [x] (x # y # r) \<and> [x] \<noteq> [] \<and> successively (\<lambda>a b. a - b = 1) [x] \<and>
            Suc (longestFrom c (x # y # r)) = c + length [x]"
        using True F by (simp add: max_def)
      then show ?thesis by blast
    next
      case gt: False
      have eq: "longestFrom c (x # y # r) = longestFrom 1 (y # r)"
        using gt F by (simp add: max_def)
      have "0 < (1::nat)" by simp
      from Cons.IH [OF this, of y] show ?thesis
      proof (elim disjE exE conjE)
        fix ys
        assume "sublist ys (y # r)" "successively (\<lambda>a b. a - b = 1) ys"
               "length ys = longestFrom 1 (y # r)"
        then have "sublist ys (x # y # r) \<and> successively (\<lambda>a b. a - b = 1) ys \<and>
                   length ys = longestFrom c (x # y # r)"
          unfolding eq by (simp add: sublist_Cons_right)
        then show ?thesis by blast
      next
        fix ys
        assume p: "prefix ys (y # r)" and s: "successively (\<lambda>a b. a - b = 1) ys"
           and l: "Suc (longestFrom 1 (y # r)) = 1 + length ys"
        from p have "sublist ys (y # r)" by (rule prefix_imp_sublist)
        with s l have "sublist ys (x # y # r) \<and> successively (\<lambda>a b. a - b = 1) ys \<and>
                   length ys = longestFrom c (x # y # r)"
          unfolding eq by (simp add: sublist_Cons_right)
        then show ?thesis by blast
      qed
    qed
  qed
qed

section \<open>Unique days of the entries\<close>

lemma mapE_entryDate:
  "mapE entryDate es =
     (if validInput (Some es) then Inr (entryDays (Some es)) else Inl RangeError)"
  by (induction es)
     (auto simp: validInput_def entryDays_def entryDate_def split: option.splits)

lemma set_newSet: "set (newSet xs) = set xs"
  by (induction xs rule: newSet.induct) auto

lemma distinct_newSet: "distinct (newSet xs)"
  by (induction xs rule: newSet.induct) (auto simp: set_newSet)

lemma set_uniqueDays: "set (uniqueDays ds) = set ds"
  by (simp add: uniqueDays_def set_newSet)

lemma descending_uniqueDays: "sorted_wrt (\<lambda>a b. a > b) (uniqueDays ds)"
proof -
  have "sorted (map (\<lambda>d. - d) (uniqueDays ds))"
    by (simp add: uniqueDays_def)
  moreover have "distinct (map (\<lambda>d. - d) (uniqueDays ds))"
    by (simp add: uniqueDays_def distinct_map distinct_newSet inj_on_def)
  ultimately have "sorted_wrt (<) (map (\<lambda>d. - d) (uniqueDays ds))"
    by (simp add: strict_sorted_iff)
  then show ?thesis
    by (simp add: sorted_wrt_map)
qed

lemma distinct_uniqueDays: "distinct (uniqueDays ds)"
  by (simp add: uniqueDays_def distinct_newSet)

lemma getUniqueDates_eq:
  "getUniqueDates es =
     (if validInput (Some es) then Inr (uniqueDays (entryDays (Some es))) else Inl RangeError)"
  by (simp add: getUniqueDates_def mapE_entryDate uniqueDays_def)

lemma descending_hd_Max:
  "sorted_wrt (\<lambda>a b. a > b) (x # r) \<Longrightarrow> Max (set (x # r)) = (x::int)"
  by (intro Max_eqI) auto

section \<open>Consecutive days in a descending sequence\<close>

lemma countdown_Suc:
  "map (\<lambda>i. s - int i) [0 ..< Suc k] = s # map (\<lambda>i. (s - 1) - int i) [0 ..< k]"
proof -
  have "[0 ..< Suc k] = 0 # map Suc [0 ..< k]"
    by (simp add: upt_conv_Cons map_Suc_upt del: upt_Suc)
  then show ?thesis
    by (simp add: comp_def algebra_simps del: upt_Suc)
qed

lemma countdown_prefix:
  "sorted_wrt (\<lambda>a b. a > b) (x # r) \<Longrightarrow> \<forall>i<k. x - int i \<in> set (x # r) \<Longrightarrow>
     prefix (map (\<lambda>i. x - int i) [0 ..< k]) (x # r)"
proof (induction r arbitrary: x k)
  case Nil
  have "k \<le> 1"
  proof (rule ccontr)
    assume "\<not> k \<le> 1"
    then have "1 < k" by simp
    with Nil.prems(2) have "x - int 1 \<in> set [x]" by blast
    then show False by simp
  qed
  then have "k = 0 \<or> k = 1" by auto
  then show ?case by auto
next
  case (Cons y r)
  show ?case
  proof (cases k)
    case 0
    then show ?thesis by simp
  next
    case (Suc k')
    show ?thesis
    proof (cases k')
      case 0
      with Suc show ?thesis by simp
    next
      case (Suc k'')
      have mem: "x - int (Suc i) \<in> set (y # r)" if "i < k'" for i
      proof -
        have "x - int (Suc i) \<in> set (x # y # r)"
          using Cons.prems(2) that \<open>k = Suc k'\<close> by (metis Suc_less_eq)
        then show ?thesis by simp
      qed
      from mem [of 0] Suc have "x - 1 \<in> set (y # r)" by simp
      moreover have "y < x" "\<forall>z\<in>set r. z < y" using Cons.prems(1) by auto
      ultimately have y: "y = x - 1" by auto
      have "prefix (map (\<lambda>i. y - int i) [0 ..< k']) (y # r)"
      proof (rule Cons.IH)
        show "sorted_wrt (\<lambda>a b. a > b) (y # r)" using Cons.prems(1) by simp
        show "\<forall>i<k'. y - int i \<in> set (y # r)"
        proof (intro allI impI)
          fix i assume "i < k'"
          then have "x - int (Suc i) \<in> set (y # r)" by (rule mem)
          moreover have "x - int (Suc i) = y - int i" using y by simp
          ultimately show "y - int i \<in> set (y # r)" by (simp only:)
        qed
      qed
      then show ?thesis
        unfolding \<open>k = Suc k'\<close> countdown_Suc y by simp
    qed
  qed
qed

lemma countdown_sublist:
  "sorted_wrt (\<lambda>a b. a > b) xs \<Longrightarrow> \<forall>i<k. s - int i \<in> set xs \<Longrightarrow>
     sublist (map (\<lambda>i. s - int i) [0 ..< k]) xs"
proof (induction xs)
  case Nil
  then have "k = 0" by (cases k) auto
  then show ?case by simp
next
  case (Cons x r)
  show ?case
  proof (cases "k = 0")
    case True
    then show ?thesis by simp
  next
    case False
    then have s: "s \<in> set (x # r)" using Cons.prems(2) by force
    show ?thesis
    proof (cases "s = x")
      case True
      then show ?thesis
        using countdown_prefix [OF Cons.prems(1), of k] Cons.prems(2) by auto
    next
      case False
      with s have "s \<in> set r" by simp
      then have "s < x" using Cons.prems(1) by auto
      then have "\<forall>i<k. s - int i \<in> set r"
        using Cons.prems(2) by fastforce
      then have "sublist (map (\<lambda>i. s - int i) [0 ..< k]) r"
        using Cons.IH Cons.prems(1) by simp
      then show ?thesis by (simp add: sublist_Cons_right)
    qed
  qed
qed

lemma countdown_run: "successively (\<lambda>a b. a - b = 1) (map (\<lambda>i. s - int i) [0 ..< k])"
proof (induction k arbitrary: s)
  case 0
  show ?case by simp
next
  case (Suc k)
  show ?case
    unfolding countdown_Suc using Suc [of "s - 1"]
    by (cases k) (simp_all add: successively_Cons upt_conv_Cons del: upt_Suc)
qed


section \<open>The exported operations on valid input\<close>

lemma entryDays_utcDays: "entryDays (Some es) = utcDays es"
proof -
  have "toDateString = utcDay"
    by (rule ext) (rule toDateString_utcDay)
  then show ?thesis by (simp add: entryDays_def utcDays_def)
qed

lemma entryDays_Nil_iff:
  "validInput (Some es) \<Longrightarrow> entryDays (Some es) = [] \<longleftrightarrow> es = []"
  by (cases es) (auto simp: validInput_def entryDays_def)

lemma uniqueDays_Nil_iff: "uniqueDays ds = [] \<longleftrightarrow> ds = []"
  using set_uniqueDays [of ds] by (metis set_empty)

lemma calculateStreaks_empty:
  "calculateStreaks clk None = Inr zeroResult" "calculateStreaks clk (Some []) = Inr zeroResult"
  by (simp_all add: calculateStreaks_def zeroResult_def)

lemma calculateStreaks_invalid:
  "\<not> validInput entries \<Longrightarrow> calculateStreaks clk entries = Inl RangeError"
  by (cases entries; cases "the entries")
     (auto simp: calculateStreaks_def getUniqueDates_eq validInput_def)

lemma calculateStreaks_valid:
  assumes "validInput (Some es)" "es \<noteq> []"
  shows "calculateStreaks clk (Some es) =
           Inr \<lparr> currentStreak = length (walk clk (uniqueDays (entryDays (Some es)))),
                 longestStreak = findLongestStreak (uniqueDays (entryDays (Some es))),
                 lastEntryDate = Some (Max (set (entryDays (Some es)))),
                 streakDates = rev (walk clk (uniqueDays (entryDays (Some es)))) \<rparr>"
proof -
  define ds where "ds = uniqueDays (entryDays (Some es))"
  have "ds \<noteq> []"
    using assms by (simp add: ds_def uniqueDays_Nil_iff entryDays_Nil_iff)
  then obtain x r where xr: "ds = x # r" by (cases ds) auto
  have "Max (set ds) = x"
    using descending_uniqueDays [of "entryDays (Some es)"] unfolding ds_def [symmetric] xr
    by (rule descending_hd_Max)
  then have "x = Max (set (entryDays (Some es)))"
    by (simp add: ds_def set_uniqueDays)
  then show ?thesis
    using assms xr
    by (simp add: calculateStreaks_def getUniqueDates_eq ds_def [symmetric]
        calculateCurrentStreak_walk)
qed

lemma isStreakActive_eq:
  "isStreakActive clk entries =
     (if validInput entries
      then Inr (toDateString (now clk) \<in> set (entryDays entries) \<or>
                addDays clk (toDateString (now clk)) (- 1) \<in> set (entryDays entries))
      else Inl RangeError)"
proof (cases entries)
  case None
  then show ?thesis by (simp add: isStreakActive_def validInput_def entryDays_def)
next
  case (Some es)
  show ?thesis
  proof (cases "es = []")
    case True
    with Some show ?thesis by (simp add: isStreakActive_def validInput_def entryDays_def)
  next
    case False
    with Some show ?thesis
      by (simp add: isStreakActive_def mapE_entryDate Let_def)
  qed
qed

lemma calculateStreaks_cases:
  obtains (empty) "entries = None \<or> entries = Some []"
                  "calculateStreaks clk entries = Inr zeroResult" "entryDays entries = []"
                  "validInput entries"
  | (invalid) "\<not> validInput entries" "calculateStreaks clk entries = Inl RangeError"
  | (valid) es where "entries = Some es" "es \<noteq> []" "validInput entries"
      "calculateStreaks clk entries =
         Inr \<lparr> currentStreak = length (walk clk (uniqueDays (entryDays entries))),
               longestStreak = findLongestStreak (uniqueDays (entryDays entries)),
               lastEntryDate = Some (Max (set (entryDays entries))),
               streakDates = rev (walk clk (uniqueDays (entryDays entries))) \<rparr>"
proof (cases "validInput entries")
  case False
  then show ?thesis using invalid calculateStreaks_invalid by blast
next
  case v: True
  show ?thesis
  proof (cases "entries = None \<or> entries = Some []")
    case True
    then have "calculateStreaks clk entries = Inr zeroResult" "entryDays entries = []"
      using calculateStreaks_empty [of clk] by (auto simp: entryDays_def)
    with True v show ?thesis using empty by blast
  next
    case False
    then obtain es where es: "entries = Some es" "es \<noteq> []" by auto
    with v show ?thesis using valid [of es] calculateStreaks_valid [of es clk] by simp
  qed
qed

lemma run_le_longest:
  "successively (\<lambda>a b. a - b = 1) ys \<Longrightarrow> sublist ys (x # r) \<Longrightarrow>
     length ys \<le> findLongestStreak (x # r)"
  using longestFrom_upper [of 1 ys x r] by (simp add: findLongestStreak_longestFrom)

lemma longest_run_attained:
  "\<exists>ys. sublist ys (x # r) \<and> successively (\<lambda>a b. a - b = 1) ys \<and>
        length ys = findLongestStreak (x # r)"
proof -
  have "0 < (1::nat)" by simp
  from longestFrom_attained [OF this, of x r] show ?thesis
  proof (elim disjE exE conjE)
    fix ys
    assume "sublist ys (x # r)" "successively (\<lambda>a b. a - b = 1) ys"
           "length ys = longestFrom 1 (x # r)"
    then have "sublist ys (x # r) \<and> successively (\<lambda>a b. a - b = 1) ys \<and>
               length ys = findLongestStreak (x # r)"
      by (simp add: findLongestStreak_longestFrom)
    then show ?thesis ..
  next
    fix ys
    assume p: "prefix ys (x # r)" and s: "successively (\<lambda>a b. a - b = 1) ys"
       and l: "Suc (longestFrom 1 (x # r)) = 1 + length ys"
    from p have "sublist ys (x # r)" by (rule prefix_imp_sublist)
    with s l have "sublist ys (x # r) \<and> successively (\<lambda>a b. a - b = 1) ys \<and>
               length ys = findLongestStreak (x # r)"
      by (simp add: findLongestStreak_longestFrom)
    then show ?thesis ..
  qed
qed

section \<open>Hosts with one offset at all times\<close>

text \<open>
  On such a host the two invariants of section 3 of the specification hold for every
  returned result.
\<close>

lemma walk_le_longest:
  assumes "fixedZone clk" "sorted_wrt (\<lambda>a b. a > b) ds"
  shows "length (walk clk ds) \<le> findLongestStreak ds"
proof (cases ds)
  case Nil
  then show ?thesis by (simp add: walk_def candidates_def)
next
  case (Cons x r)
  define k where "k = length (walk clk ds)"
  define s where "s = anchor clk ds"
  have w: "walk clk ds = map (\<lambda>i. s - int i) [0 ..< k]"
    unfolding k_def s_def by (rule walk_countdown [OF assms(1)])
  have "\<forall>i<k. s - int i \<in> set ds"
  proof (intro allI impI)
    fix i assume "i < k"
    then have "s - int i \<in> set (walk clk ds)" unfolding w by simp
    then show "s - int i \<in> set ds" using walk_subset by blast
  qed
  then have "sublist (map (\<lambda>i. s - int i) [0 ..< k]) (x # r)"
    using countdown_sublist [OF assms(2)] Cons by simp
  moreover have "successively (\<lambda>a b. a - b = 1) (map (\<lambda>i. s - int i) [0 ..< k])"
    by (rule countdown_run)
  ultimately have "length (map (\<lambda>i. s - int i) [0 ..< k]) \<le> findLongestStreak (x # r)"
    by (rule run_le_longest [rotated])
  then show ?thesis
    unfolding Cons using k_def Cons by simp
qed

lemma walk_maximal:
  assumes "fixedZone clk" "distinct ds"
  shows "anchor clk ds - int (length (walk clk ds)) \<notin> set ds"
proof -
  define a where "a = anchor clk ds"
  define cands where "cands = map (\<lambda>i. a - int i) [0 ..< length ds]"
  define k where "k = length (walk clk ds)"
  have w: "walk clk ds = takeWhile (\<lambda>d. d \<in> set ds) cands"
    by (simp add: walk_def candidates_fixedZone [OF assms(1)] cands_def a_def)
  have kn: "k \<le> length ds"
    unfolding k_def by (rule walk_length_le)
  show ?thesis
  proof (cases "k < length ds")
    case True
    then have "k < length cands" by (simp add: cands_def)
    then have "\<not> (cands ! k \<in> set ds)"
      unfolding k_def w by (rule nth_length_takeWhile)
    moreover have "cands ! k = a - int k"
      using True by (simp add: cands_def)
    ultimately show ?thesis by (simp add: a_def k_def)
  next
    case False
    with kn have k: "k = length ds" by simp
    have wc: "walk clk ds = cands"
      using walk_countdown [OF assms(1), of ds] by (simp add: cands_def a_def k_def [symmetric] k)
    have "distinct cands"
      by (simp add: cands_def distinct_map inj_on_def)
    then have "card (set cands) = length cands"
      by (rule distinct_card)
    then have "card (set cands) = length ds"
      by (simp add: cands_def)
    moreover have "card (set ds) = length ds"
      using assms(2) by (rule distinct_card)
    moreover have "set cands \<subseteq> set ds"
      using walk_subset [of clk ds] by (simp add: wc)
    ultimately have "set cands = set ds"
      by (simp add: card_subset_eq)
    moreover have "a - int (length ds) \<notin> set cands"
      by (auto simp: cands_def)
    ultimately show ?thesis by (simp add: a_def k_def [symmetric] k)
  qed
qed

lemma upto_next: "successively (\<lambda>a b. b = a + 1) [i .. j]"
proof (induction i j rule: upto.induct)
  case (1 i j)
  show ?case
  proof (cases "i \<le> j")
    case True
    then have eq: "[i .. j] = i # [i + 1 .. j]" by (simp add: upto_rec1)
    show ?thesis
    proof (cases "i + 1 \<le> j")
      case True
      then have "[i + 1 .. j] = (i + 1) # [i + 1 + 1 .. j]" by (simp add: upto_rec1)
      with 1 \<open>i \<le> j\<close> eq show ?thesis by (simp add: successively_Cons)
    next
      case False
      with eq show ?thesis by simp
    qed
  next
    case False
    then show ?thesis by simp
  qed
qed

lemma current_le_longest_fixedZone:
  assumes "fixedZone clk" "calculateStreaks clk entries = Inr r"
  shows "currentStreak r \<le> longestStreak r"
proof (cases rule: calculateStreaks_cases [of entries clk])
  case empty
  with assms show ?thesis by (auto simp: zeroResult_def)
next
  case invalid
  with assms show ?thesis by simp
next
  case (valid es)
  have "length (walk clk (uniqueDays (entryDays entries)))
          \<le> findLongestStreak (uniqueDays (entryDays entries))"
    using assms(1) descending_uniqueDays by (rule walk_le_longest)
  with valid assms show ?thesis by auto
qed

lemma streakDates_range_fixedZone:
  assumes "fixedZone clk" "calculateStreaks clk entries = Inr r"
  shows "length (streakDates r) = currentStreak r \<and>
         sorted_wrt (<) (streakDates r) \<and>
         successively (\<lambda>prev next. next = prev + 1) (streakDates r) \<and>
         streakDates r =
           [anchor clk (entryDays entries) - int (currentStreak r) + 1
              .. anchor clk (entryDays entries)] \<and>
         set (streakDates r) \<subseteq> set (entryDays entries) \<and>
         anchor clk (entryDays entries) - int (currentStreak r) \<notin> set (entryDays entries)"
proof (cases rule: calculateStreaks_cases [of entries clk])
  case empty
  with assms show ?thesis by (auto simp: zeroResult_def)
next
  case invalid
  with assms show ?thesis by simp
next
  case (valid es)
  define ds where "ds = uniqueDays (entryDays entries)"
  define a where "a = anchor clk (entryDays entries)"
  define k where "k = length (walk clk ds)"
  have a: "anchor clk ds = a"
    unfolding a_def ds_def by (rule anchor_cong) (rule set_uniqueDays)
  have r: "r = \<lparr> currentStreak = k, longestStreak = findLongestStreak ds,
                 lastEntryDate = Some (Max (set (entryDays entries))),
                 streakDates = rev (walk clk ds) \<rparr>"
    using valid(4) assms(2) by (simp add: ds_def k_def)
  have range: "rev (walk clk ds) = [a - int k + 1 .. a]"
    using rev_walk [OF assms(1), of ds] by (simp add: a k_def)
  have sub: "set (rev (walk clk ds)) \<subseteq> set (entryDays entries)"
    using walk_subset [of clk ds] by (simp add: ds_def set_uniqueDays)
  have "distinct ds"
    unfolding ds_def by (rule distinct_uniqueDays)
  then have "a - int k \<notin> set ds"
    using walk_maximal [OF assms(1), of ds] by (simp add: a k_def)
  then have mx: "a - int k \<notin> set (entryDays entries)"
    by (simp add: ds_def set_uniqueDays)
  have len: "length (rev (walk clk ds)) = k" by (simp add: k_def)
  show ?thesis
    unfolding r a_def [symmetric]
    using range sub mx len upto_next [of "a - int k + 1" a] by simp
qed

section \<open>Scenarios A to D\<close>

lemma scenario_A:
  "calculateStreaks clockSep21 scenarioA =
     Inr \<lparr> currentStreak = 2, longestStreak = 2, lastEntryDate = Some 20352,
           streakDates = [20351, 20352] \<rparr>"
  by code_simp

lemma scenario_B:
  "calculateStreaks clockSep21 scenarioB =
     Inr \<lparr> currentStreak = 1, longestStreak = 1, lastEntryDate = Some 20352,
           streakDates = [20352] \<rparr>"
  by code_simp

lemma scenario_C:
  "calculateStreaks clockSep23 scenarioC =
     Inr \<lparr> currentStreak = 0, longestStreak = 4, lastEntryDate = Some 20352,
           streakDates = [] \<rparr>"
  by code_simp

lemma scenario_D:
  "calculateStreaks clockSep21 (Some []) =
     Inr \<lparr> currentStreak = 0, longestStreak = 0, lastEntryDate = None, streakDates = [] \<rparr>"
  by code_simp

section \<open>Milestone projection\<close>

lemma ceil100: "\<lceil>real_of_int s / 100\<rceil> = - ((- s) div 100)"
  using ceiling_divide_eq_div [of s 100, where ?'a = real] by simp

lemma roundUp_multiple: "100 dvd (s::int) \<Longrightarrow> - ((- s) div 100) * 100 = s"
  by (elim dvdE) simp

lemma roundUp_other:
  assumes "\<not> 100 dvd (s::int)"
  shows "s < - ((- s) div 100) * 100"
proof -
  have "(- s) mod 100 \<noteq> 0" using assms by (simp add: mod_eq_0_iff_dvd)
  moreover have "0 \<le> (- s) mod 100" by simp
  ultimately have "0 < (- s) mod 100" by linarith
  moreover have "(- s) div 100 * 100 + (- s) mod 100 = - s" by (rule div_mult_mod_eq)
  ultimately show ?thesis by linarith
qed

lemma getDaysUntilNextMilestone_stuck:
  assumes "1000 \<le> s" "100 dvd s"
  shows "getDaysUntilNextMilestone s = \<lparr> daysUntil = 0, milestone = s \<rparr>"
  using assms(1) roundUp_multiple [OF assms(2)]
  by (simp add: getDaysUntilNextMilestone_def milestones_def ceil100 Let_def)

lemma getDaysUntilNextMilestone_ahead:
  assumes "0 \<le> s" "s < 1000 \<or> \<not> 100 dvd s"
  shows "s < milestone (getDaysUntilNextMilestone s) \<and>
         1 \<le> daysUntil (getDaysUntilNextMilestone s)"
proof (cases "s < 1000")
  case True
  then show ?thesis
    by (simp add: getDaysUntilNextMilestone_def milestones_def Let_def)
next
  case False
  with assms have "\<not> 100 dvd s" by simp
  then have "s < - ((- s) div 100) * 100" by (rule roundUp_other)
  then show ?thesis
    using False by (simp add: getDaysUntilNextMilestone_def milestones_def ceil100 Let_def)
qed

lemma getDaysUntilNextMilestone_fixed:
  assumes "s < 1000"
  shows "find (\<lambda>m. s < m) milestones = Some (milestone (getDaysUntilNextMilestone s)) \<and>
         daysUntil (getDaysUntilNextMilestone s) = milestone (getDaysUntilNextMilestone s) - s"
  using assms by (simp add: getDaysUntilNextMilestone_def milestones_def Let_def)

lemma roundUp_within: "- ((- s) div 100) * 100 < (s::int) + 100"
proof -
  have "(- s) mod 100 < 100" by simp
  moreover have "(- s) div 100 * 100 + (- s) mod 100 = - s" by (rule div_mult_mod_eq)
  ultimately show ?thesis by linarith
qed

lemma getDaysUntilNextMilestone_rounded:
  assumes "1000 \<le> s" "\<not> 100 dvd s"
  shows "100 dvd milestone (getDaysUntilNextMilestone s) \<and>
         s < milestone (getDaysUntilNextMilestone s) \<and>
         milestone (getDaysUntilNextMilestone s) < s + 100 \<and>
         daysUntil (getDaysUntilNextMilestone s) = milestone (getDaysUntilNextMilestone s) - s"
  using assms(1) roundUp_other [OF assms(2)] roundUp_within [of s]
  by (simp add: getDaysUntilNextMilestone_def milestones_def ceil100 Let_def)

lemma getDaysUntilNextMilestone_5:
  "getDaysUntilNextMilestone 5 = \<lparr> daysUntil = 5, milestone = 10 \<rparr>"
  by code_simp

text \<open>
  Claim C1. The claim: for every streak \<open>\<ge> 0\<close> the returned milestone is strictly above
  the streak and \<open>daysUntil \<ge> 1\<close>; from 1000 on it is the next multiple of 100 strictly
  above the streak. The code does not do this at 1000: no fixed milestone is above 1000,
  and \<open>Math.ceil(1000 / 100) * 100\<close> is 1000 again, so the call returns milestone 1000 and
  zero days. The same happens at every multiple of 100 from 1000 on
  (\<open>getDaysUntilNextMilestone_stuck\<close>). Everywhere else the claim holds: below 1000 the
  result is the first fixed milestone above the streak
  (\<open>getDaysUntilNextMilestone_fixed\<close>), and from 1000 on, off the multiples of 100, it is
  the next multiple of 100 (\<open>getDaysUntilNextMilestone_rounded\<close>).
\<close>

theorem getDaysUntilNextMilestone_at_1000:
  "getDaysUntilNextMilestone 1000 = \<lparr> daysUntil = 0, milestone = 1000 \<rparr>"
  by code_simp


section \<open>Invariants of the result\<close>

text \<open>
  Claim C3. The claim: for every entry collection and every reference day the returned
  result has \<open>currentStreak \<le> longestStreak\<close>. The code does not keep this on a host
  whose clocks were set back between the entries and today. On the host in New York on
  2025-11-03, with entries on 2025-10-31, 2025-11-01 and 2025-11-03 (days 20392, 20393,
  20395), the candidates that \<open>addDays\<close> produces are 11-03, 11-01 and 10-31: the day
  without an entry, 11-02, is skipped (\<open>addDays_newYork_skips_Nov02\<close>), so all three
  candidates are found and the current streak is 3, while the longest run of consecutive
  days is 2. On a host with one offset at all times the claim holds
  (\<open>current_le_longest_fixedZone\<close>).
\<close>

theorem calculateStreaks_current_exceeds_longest_after_fall_back: 
  "calculateStreaks clockNov03 entriesOct31Nov01Nov03 =
     Inr \<lparr> currentStreak = 3, longestStreak = 2, lastEntryDate = Some 20395,
           streakDates = [20392, 20393, 20395] \<rparr>"
  by code_simp

text \<open>
  Claim C4. The claim: \<open>streakDates\<close> has \<open>currentStreak\<close> elements and is ascending and
  contiguous, the day range of the current streak. On the host in New York on 2025-11-03,
  with entries on 2025-11-01, 2025-11-02 and 2025-11-03 (three days in a row), the
  candidates are 11-03, 11-01 and 10-31: the code returns a streak of 2 with the dates
  11-01 and 11-03, which are not contiguous and are not the three days of the streak. The
  length still equals \<open>currentStreak\<close>. The defect is that of claim C3, in \<open>addDays\<close>. On
  a host with one offset at all times the claim holds (\<open>streakDates_range_fixedZone\<close>).
\<close>

theorem calculateStreaks_streakDates_gap_after_fall_back:
  "calculateStreaks clockNov03 entriesNov01Nov02Nov03 =
     Inr \<lparr> currentStreak = 2, longestStreak = 3, lastEntryDate = Some 20395,
           streakDates = [20393, 20395] \<rparr>"
  by code_simp

section \<open>Empty input\<close>

text \<open>
  Claim C10. For an empty entry collection, and for a null or undefined one,
  \<open>isStreakActive\<close> returns false and does not throw.
\<close>

theorem isStreakActive_empty:
  "isStreakActive clk None = Inr False \<and> isStreakActive clk (Some []) = Inr False"
  by (simp add: isStreakActive_def)

text \<open>
  Claim C7. A null, undefined or empty entry collection gives the zero result and no
  error. Whenever a result is returned, \<open>lastEntryDate\<close> is null exactly for such an input;
  for a non-empty collection whose timestamps parse a result is returned, and its
  \<open>lastEntryDate\<close> is the most recent calendar day with an entry.
\<close>

theorem calculateStreaks_empty_input:
  "calculateStreaks clk None =
     Inr \<lparr> currentStreak = 0, longestStreak = 0, lastEntryDate = None, streakDates = [] \<rparr> \<and>
   calculateStreaks clk (Some []) =
     Inr \<lparr> currentStreak = 0, longestStreak = 0, lastEntryDate = None, streakDates = [] \<rparr> \<and>
   (\<forall>r. calculateStreaks clk entries = Inr r \<longrightarrow>
        (lastEntryDate r = None \<longleftrightarrow> entries = None \<or> entries = Some [])) \<and>
   (validInput entries \<and> entries \<noteq> None \<and> entries \<noteq> Some [] \<longrightarrow>
      (\<exists>r. calculateStreaks clk entries = Inr r \<and>
           lastEntryDate r = Some (Max (set (entryDays entries)))))"
proof -
  have e: "calculateStreaks clk None =
     Inr \<lparr> currentStreak = 0, longestStreak = 0, lastEntryDate = None, streakDates = [] \<rparr>"
   "calculateStreaks clk (Some []) =
     Inr \<lparr> currentStreak = 0, longestStreak = 0, lastEntryDate = None, streakDates = [] \<rparr>"
    by (simp_all add: calculateStreaks_def)
  have rest: "(\<forall>r. calculateStreaks clk entries = Inr r \<longrightarrow>
        (lastEntryDate r = None \<longleftrightarrow> entries = None \<or> entries = Some [])) \<and>
   (validInput entries \<and> entries \<noteq> None \<and> entries \<noteq> Some [] \<longrightarrow>
      (\<exists>r. calculateStreaks clk entries = Inr r \<and>
           lastEntryDate r = Some (Max (set (entryDays entries)))))"
  proof (cases rule: calculateStreaks_cases [of entries clk])
    case empty
    then show ?thesis by (auto simp: zeroResult_def)
  next
    case invalid
    then show ?thesis by simp
  next
    case (valid es)
    then show ?thesis by simp
  qed
  from e rest show ?thesis by blast
qed

theorem calculateStreaks_empty_input_witness:
  "validInput scenarioA \<and> scenarioA \<noteq> None \<and> scenarioA \<noteq> Some [] \<and>
   (\<exists>r. calculateStreaks clockSep21 scenarioA = Inr r \<and>
        lastEntryDate r \<noteq> None \<and>
        lastEntryDate r = Some (Max (set (entryDays scenarioA))))"
proof -
  have v: "validInput scenarioA" "scenarioA \<noteq> None" "scenarioA \<noteq> Some []"
    by (simp_all add: validInput_def scenarioA_def)
  from calculateStreaks_empty_input [of clockSep21 scenarioA] v show ?thesis
    by auto
qed

section \<open>The current streak and the longest streak\<close>



text \<open>
  Claim C6. For every strictly descending day sequence, \<open>findLongestStreak\<close> is the
  maximum length of a run of calendar-consecutive days in the sequence: some run in the
  sequence has this length, no run is longer, and no \<open>k\<close> consecutive calendar days are
  all in the sequence for a larger \<open>k\<close>. It is 0 for the empty sequence and at least 1
  otherwise.
\<close>

theorem findLongestStreak_max_run:
  assumes "sorted_wrt (\<lambda>a b. a > b) ds"
  shows "(ds = [] \<longrightarrow> findLongestStreak ds = 0) \<and>
         (ds \<noteq> [] \<longrightarrow> 1 \<le> findLongestStreak ds) \<and>
         (\<exists>ys. sublist ys ds \<and> isRun ys \<and> length ys = findLongestStreak ds) \<and>
         (\<forall>ys. sublist ys ds \<and> isRun ys \<longrightarrow> length ys \<le> findLongestStreak ds) \<and>
         (\<forall>d k. (\<forall>i<k. d - int i \<in> set ds) \<longrightarrow> k \<le> findLongestStreak ds)"
proof (cases ds)
  case Nil
  have "sublist [] ([]::day list) \<and> isRun [] \<and> length ([]::day list) = findLongestStreak []"
    by (simp add: isRun_def findLongestStreak_def)
  moreover have "k = 0" if "\<forall>i<k. d - int i \<in> set ([]::day list)" for d k
    using that by (cases k) auto
  ultimately show ?thesis
    unfolding Nil by (auto simp: findLongestStreak_def)
next
  case (Cons x r)
  have ge: "1 \<le> findLongestStreak (x # r)"
    using longestFrom_ge [of 1 "x # r"] by (simp add: findLongestStreak_longestFrom)
  have att: "\<exists>ys. sublist ys (x # r) \<and> isRun ys \<and> length ys = findLongestStreak (x # r)"
    using longest_run_attained [of x r] by (simp add: isRun_def)
  have up: "length ys \<le> findLongestStreak (x # r)" if "sublist ys (x # r)" "isRun ys" for ys
    using that run_le_longest [of ys x r] by (simp add: isRun_def)
  have days: "k \<le> findLongestStreak (x # r)" if "\<forall>i<k. d - int i \<in> set (x # r)" for d k
  proof -
    have "sublist (map (\<lambda>i. d - int i) [0 ..< k]) (x # r)"
      using countdown_sublist [of "x # r" k d] assms that Cons by simp
    then have "length (map (\<lambda>i. d - int i) [0 ..< k]) \<le> findLongestStreak (x # r)"
      using countdown_run [of d k] by (intro run_le_longest)
    then show ?thesis by simp
  qed
  show ?thesis
    unfolding Cons using ge att up days by blast
qed

theorem findLongestStreak_max_run_witness:
  "sorted_wrt (\<lambda>a b. a > b) [20352, 20351, 20350, 20347, 20346 :: int] \<and>
   findLongestStreak [20352, 20351, 20350, 20347, 20346] = 3 \<and>
   sublist [20352, 20351, 20350] [20352, 20351, 20350, 20347, 20346 :: int] \<and>
   isRun [20352, 20351, 20350] \<and>
   length [20352, 20351, 20350 :: int] \<le> findLongestStreak [20352, 20351, 20350, 20347, 20346]"
proof -
  have s: "sorted_wrt (\<lambda>a b. a > b) [20352, 20351, 20350, 20347, 20346 :: int]" by simp
  have e: "findLongestStreak [20352, 20351, 20350, 20347, 20346] = 3" by code_simp
  have r: "sublist [20352, 20351, 20350] [20352, 20351, 20350, 20347, 20346 :: int]"
          "isRun [20352, 20351, 20350]"
    by (simp_all add: isRun_def)
  from findLongestStreak_max_run [OF s] r
  have "length [20352, 20351, 20350 :: int] \<le> findLongestStreak [20352, 20351, 20350, 20347, 20346]"
    by blast
  with s e r show ?thesis by blast
qed

section \<open>The activity check\<close>






section \<open>The reference frame of day normalisation\<close>

lemma toDateString_behind:
  assumes "- msPerDay \<le> utcOffsetAt clk t" "utcOffsetAt clk t \<le> 0"
  shows "toDateString t =
           getDate clk t +
             (if msPerDay + utcOffsetAt clk t \<le> (t + utcOffsetAt clk t) mod msPerDay then 1 else 0)"
proof -
  define z where "z = utcOffsetAt clk t"
  define q where "q = (t + z) div msPerDay"
  define l where "l = (t + z) mod msPerDay"
  have M: "0 < msPerDay" by (rule msPerDay_pos)
  have l: "0 \<le> l" "l < msPerDay" using M by (simp_all add: l_def)
  have "q * msPerDay + l = t + z" unfolding q_def l_def by (rule div_mult_mod_eq)
  then have t: "t = q * msPerDay + (l - z)" by simp
  show ?thesis
  proof (cases "msPerDay + z \<le> l")
    case True
    have "t = (q + 1) * msPerDay + (l - z - msPerDay)" using t by (simp add: algebra_simps)
    moreover have "0 \<le> l - z - msPerDay" "l - z - msPerDay < msPerDay"
      using True l assms by (simp_all add: z_def)
    ultimately have "t div msPerDay = q + 1"
      by (intro int_div_pos_eq [where r = "l - z - msPerDay"]) (simp_all add: algebra_simps)
    with True show ?thesis
      by (simp add: toDateString_div getDate_def z_def [symmetric] q_def l_def)
  next
    case False
    have "0 \<le> l - z" "l - z < msPerDay"
      using False l assms by (simp_all add: z_def)
    then have "t div msPerDay = q"
      using t by (intro int_div_pos_eq [where r = "l - z"]) (simp_all add: algebra_simps)
    with False show ?thesis
      by (simp add: toDateString_div getDate_def z_def [symmetric] q_def l_def)
  qed
qed

text \<open>
  Claim C9. \<open>toDateString\<close> returns the UTC calendar day of an instant, the whole days
  since the epoch, whatever the zone of the host; in a zone behind UTC an instant whose
  local time of day is within the offset of midnight gets the day after its local day.
  Every operation counts an entry under that day: for entries whose timestamps parse,
  \<open>getUniqueDates\<close> returns the UTC days of the entries, each once and newest first;
  \<open>isStreakActive\<close> tests whether one of these days is the UTC day of the clock or the day
  before it by \<open>addDays\<close>; and \<open>calculateStreaks\<close> returns the current streak and its
  dates over these days, the longest streak over these days, and the greatest of them as
  \<open>lastEntryDate\<close>.
\<close>

theorem entries_counted_under_utc_day:
  "toDateString t = utcDay t \<and>
   (- msPerDay \<le> utcOffsetAt clk t \<and> utcOffsetAt clk t < 0 \<and>
    msPerDay + utcOffsetAt clk t \<le> (t + utcOffsetAt clk t) mod msPerDay \<longrightarrow>
      toDateString t = getDate clk t + 1) \<and>
   (validInput (Some es) \<longrightarrow>
      (\<exists>ds. getUniqueDates es = Inr ds \<and>
            set ds = set (utcDays es) \<and>
            sorted_wrt (\<lambda>a b. a > b) ds \<and>
            isStreakActive clk (Some es) =
              Inr (utcDay (now clk) \<in> set (utcDays es) \<or>
                   addDays clk (utcDay (now clk)) (- 1) \<in> set (utcDays es)) \<and>
            (es \<noteq> [] \<longrightarrow>
               calculateStreaks clk (Some es) =
                 Inr \<lparr> currentStreak = streak (calculateCurrentStreak clk ds),
                       longestStreak = findLongestStreak ds,
                       lastEntryDate = Some (Max (set (utcDays es))),
                       streakDates = dates (calculateCurrentStreak clk ds) \<rparr>)))"
proof -
  have late: "- msPerDay \<le> utcOffsetAt clk t \<and> utcOffsetAt clk t < 0 \<and>
      msPerDay + utcOffsetAt clk t \<le> (t + utcOffsetAt clk t) mod msPerDay \<longrightarrow>
        toDateString t = getDate clk t + 1"
    using toDateString_behind [of clk t] by simp
  have ops: "\<exists>ds. getUniqueDates es = Inr ds \<and>
            set ds = set (utcDays es) \<and>
            sorted_wrt (\<lambda>a b. a > b) ds \<and>
            isStreakActive clk (Some es) =
              Inr (utcDay (now clk) \<in> set (utcDays es) \<or>
                   addDays clk (utcDay (now clk)) (- 1) \<in> set (utcDays es)) \<and>
            (es \<noteq> [] \<longrightarrow>
               calculateStreaks clk (Some es) =
                 Inr \<lparr> currentStreak = streak (calculateCurrentStreak clk ds),
                       longestStreak = findLongestStreak ds,
                       lastEntryDate = Some (Max (set (utcDays es))),
                       streakDates = dates (calculateCurrentStreak clk ds) \<rparr>)"
    if v: "validInput (Some es)"
  proof -
    define ds where "ds = uniqueDays (utcDays es)"
    have u: "getUniqueDates es = Inr ds"
      using v by (simp add: getUniqueDates_eq entryDays_utcDays ds_def)
    have s: "set ds = set (utcDays es)" "sorted_wrt (\<lambda>a b. a > b) ds"
      by (simp_all add: ds_def set_uniqueDays descending_uniqueDays)
    have a: "isStreakActive clk (Some es) =
              Inr (utcDay (now clk) \<in> set (utcDays es) \<or>
                   addDays clk (utcDay (now clk)) (- 1) \<in> set (utcDays es))"
      using v by (simp add: isStreakActive_eq entryDays_utcDays toDateString_utcDay)
    have c: "calculateStreaks clk (Some es) =
                 Inr \<lparr> currentStreak = streak (calculateCurrentStreak clk ds),
                       longestStreak = findLongestStreak ds,
                       lastEntryDate = Some (Max (set (utcDays es))),
                       streakDates = dates (calculateCurrentStreak clk ds) \<rparr>"
      if "es \<noteq> []"
      using calculateStreaks_valid [OF v that, of clk]
      by (simp add: entryDays_utcDays ds_def calculateCurrentStreak_walk)
    from u s a c show ?thesis by blast
  qed
  from late ops show ?thesis
    by (simp add: toDateString_utcDay)
qed

theorem entries_counted_under_utc_day_witness:
  "- msPerDay \<le> utcOffsetAt clockSep21 1758418200000 \<and>
   utcOffsetAt clockSep21 1758418200000 < 0 \<and>
   msPerDay + utcOffsetAt clockSep21 1758418200000
     \<le> (1758418200000 + utcOffsetAt clockSep21 1758418200000) mod msPerDay \<and>
   getDate clockSep21 1758418200000 = 20351 \<and>
   toDateString 1758418200000 = getDate clockSep21 1758418200000 + 1 \<and>
   validInput (Some [entryLateSep20]) \<and>
   getUniqueDates [entryLateSep20] = Inr [20352] \<and>
   isStreakActive clockSep21 (Some [entryLateSep20]) = Inr True \<and>
   calculateStreaks clockSep21 (Some [entryLateSep20]) =
     Inr \<lparr> currentStreak = 1, longestStreak = 1, lastEntryDate = Some 20352,
           streakDates = [20352] \<rparr>"
proof -
  have h: "- msPerDay \<le> utcOffsetAt clockSep21 1758418200000"
    "utcOffsetAt clockSep21 1758418200000 < 0"
    "msPerDay + utcOffsetAt clockSep21 1758418200000
       \<le> (1758418200000 + utcOffsetAt clockSep21 1758418200000) mod msPerDay"
    "getDate clockSep21 1758418200000 = 20351"
    by (simp_all add: clockSep21_def newYork_def hostWithChange_def msPerDay_def getDate_def)
  have v: "validInput (Some [entryLateSep20])"
    by (simp add: validInput_def entryLateSep20_def)
  have d: "utcDays [entryLateSep20] = [20352]" "utcDay (now clockSep21) = 20352"
    by code_simp+
  note inst = entries_counted_under_utc_day [of 1758418200000 clockSep21 "[entryLateSep20]"]
  have late: "toDateString 1758418200000 = getDate clockSep21 1758418200000 + 1"
    by (rule mp [OF conjunct1 [OF conjunct2 [OF inst]]]) (intro conjI h(1,2,3))
  from mp [OF conjunct2 [OF conjunct2 [OF inst]] v]
  obtain ds where ds: "getUniqueDates [entryLateSep20] = Inr ds"
      "set ds = set (utcDays [entryLateSep20])" "sorted_wrt (\<lambda>a b. a > b) ds"
      "isStreakActive clockSep21 (Some [entryLateSep20]) =
         Inr (utcDay (now clockSep21) \<in> set (utcDays [entryLateSep20]) \<or>
              addDays clockSep21 (utcDay (now clockSep21)) (- 1) \<in> set (utcDays [entryLateSep20]))"
      "[entryLateSep20] \<noteq> [] \<longrightarrow>
         calculateStreaks clockSep21 (Some [entryLateSep20]) =
           Inr \<lparr> currentStreak = streak (calculateCurrentStreak clockSep21 ds),
                 longestStreak = findLongestStreak ds,
                 lastEntryDate = Some (Max (set (utcDays [entryLateSep20]))),
                 streakDates = dates (calculateCurrentStreak clockSep21 ds) \<rparr>"
    by (elim exE conjE)
  have u: "getUniqueDates [entryLateSep20] = Inr [20352]"
    by code_simp
  from ds(1) u have dsv: "ds = [20352]" by simp
  have ev: "calculateCurrentStreak clockSep21 [20352] = \<lparr> streak = 1, dates = [20352] \<rparr>"
    "findLongestStreak [20352] = 1"
    by code_simp+
  have a: "isStreakActive clockSep21 (Some [entryLateSep20]) = Inr True"
    using ds(4) by (simp add: d)
  have c: "calculateStreaks clockSep21 (Some [entryLateSep20]) =
     Inr \<lparr> currentStreak = 1, longestStreak = 1, lastEntryDate = Some 20352,
           streakDates = [20352] \<rparr>"
    using ds(5) by (simp add: dsv ev d)
  show ?thesis
    by (intro conjI h late v u a c)
qed

end
